theory Spec2Isabelle
  imports Main "HOL-Library.Multiset"
begin

section \<open>Intervals and vectors of intervals\<close>

text \<open>
  \<^verbatim>\<open>class Interval { public: Interval(int min, int max); int min; int max; };\<close>

  The two bounds are C++ \<^verbatim>\<open>int\<close>s. The program only copies and compares them (no
  arithmetic is ever done on a bound), so no overflow can occur and the bounds are
  modelled as mathematical integers. The fields are \<open>min_b\<close> and \<open>max_b\<close> because
  \<open>min\<close> and \<open>max\<close> are constants of HOL.
\<close>

record Interval =
  min_b :: int
  max_b :: int

text \<open>
  A \<^verbatim>\<open>std::vector<Interval>\<close> is a list; an iterator is the position it points to,
  counted from \<^verbatim>\<open>begin()\<close>. An iterator that does not point into the vector cannot
  be read through: that is undefined behaviour in C++, and an error in this model.
\<close>

datatype error = InvalidIterator

text \<open>\<^verbatim>\<open>list.erase(it)\<close>: the element at position \<open>it\<close> is removed, the later ones move down.\<close>

definition erase :: "Interval list \<Rightarrow> nat \<Rightarrow> Interval list" where
  "erase list it = take it list @ drop (Suc it) list"

section \<open>The merge function\<close>

text \<open>The test of line 69: the current interval is a subset of the compared one.\<close>

definition is_subset :: "Interval \<Rightarrow> Interval \<Rightarrow> bool" where
  "is_subset currentInterval compInterval \<longleftrightarrow>
     min_b currentInterval \<ge> min_b compInterval \<and> max_b currentInterval \<le> max_b compInterval"

text \<open>The test of lines 77-78: the current interval overlaps the compared one from below.\<close>

definition overlaps :: "Interval \<Rightarrow> Interval \<Rightarrow> bool" where
  "overlaps currentInterval compInterval \<longleftrightarrow>
     min_b compInterval \<le> max_b currentInterval \<and> max_b currentInterval \<le> max_b compInterval
     \<and> min_b currentInterval < min_b compInterval"

text \<open>
  The inner loop (lines 60-89), for the current position \<open>it\<close> and the copy
  \<open>currentInterval\<close> of the element there. \<open>iter\<close> runs forward from \<^verbatim>\<open>begin()\<close>; the
  first compared interval that passes one of the two tests ends the loop (\<^verbatim>\<open>break\<close>)
  after the current element has been erased. In the second case the compared element
  is first overwritten in place with the current \<open>min\<close> and its own \<open>max\<close>.
\<close>

function inner :: "nat \<Rightarrow> Interval \<Rightarrow> nat \<Rightarrow> Interval list \<Rightarrow> Interval list" where
  "inner it currentInterval iter list =
     (if iter < length list then
        if it = iter then inner it currentInterval (Suc iter) list
        else
          let compInterval = list ! iter in
          if is_subset currentInterval compInterval then erase list it
          else if overlaps currentInterval compInterval then
            erase (list[iter := (list ! iter)\<lparr>min_b := min_b currentInterval,
                                              max_b := max_b compInterval\<rparr>]) it
          else inner it currentInterval (Suc iter) list
      else list)"
  by pat_completeness auto
termination
  by (relation "measure (\<lambda>(it, cur, iter, list). length list - iter)") auto

declare inner.simps [simp del]

text \<open>
  The outer loop (lines 57-90): \<open>it\<close> runs backward while \<^verbatim>\<open>it >= list.begin()\<close>. It is
  an integer because the loop ends with \<open>it\<close> one position before \<^verbatim>\<open>begin()\<close>. The read
  \<^verbatim>\<open>*it\<close> needs \<open>it\<close> to point into the vector. After an \<^verbatim>\<open>erase(it)\<close> the same
  position is decremented like any other.
\<close>

function outer :: "int \<Rightarrow> Interval list \<Rightarrow> error + Interval list" where
  "outer it list =
     (if it \<ge> 0 then
        if nat it < length list then
          outer (it - 1) (inner (nat it) (list ! nat it) 0 list)
        else Inl InvalidIterator
      else Inr list)"
  by pat_completeness auto
termination
  by (relation "measure (\<lambda>(it, list). nat (it + 1))") auto

declare outer.simps [simp del]

text \<open>
  \<^verbatim>\<open>std::vector<Interval> merge(std::vector<Interval> list)\<close>. The loop starts at
  \<^verbatim>\<open>list.end() - 1\<close>. An empty vector has no last element: \<^verbatim>\<open>end()\<close> equals
  \<^verbatim>\<open>begin()\<close>, and both are null in a vector that was copied from an empty one and
  owns no storage. \<^verbatim>\<open>end() - 1\<close> is then not an iterator of the vector and does not
  compare below \<^verbatim>\<open>begin()\<close>, so the loop body reads through it: undefined behaviour.
\<close>

definition merge :: "Interval list \<Rightarrow> error + Interval list" where
  "merge list =
     (if list = [] then Inl InvalidIterator
      else outer (int (length list) - 1) list)"

subsection \<open>A call of merge, with the caller's vector in view\<close>

text \<open>
  The parameter \<open>list\<close> of \<open>merge\<close> is declared by value: a call \<^verbatim>\<open>merge(v)\<close>
  copy-constructs it from the caller's vector \<open>v\<close>. A frame holds both vectors. The two
  loops are written once more as state transformers on the frame, statement by
  statement as in lines 57-90, to see which vector each \<^verbatim>\<open>erase\<close> and each assignment
  works on; \<open>call_merge\<close> builds the frame and runs the body, and the vector returned by
  \<^verbatim>\<open>return list\<close> is the \<open>list_param\<close> of the final frame.
\<close>

record frame =
  caller_vector :: "Interval list"
  list_param :: "Interval list"

function inner_frame :: "nat \<Rightarrow> Interval \<Rightarrow> nat \<Rightarrow> frame \<Rightarrow> frame" where
  "inner_frame it currentInterval iter s =
     (if iter < length (list_param s) then
        if it = iter then inner_frame it currentInterval (Suc iter) s
        else
          let compInterval = list_param s ! iter in
          if is_subset currentInterval compInterval then
            s\<lparr>list_param := erase (list_param s) it\<rparr>
          else if overlaps currentInterval compInterval then
            s\<lparr>list_param :=
                erase ((list_param s)[iter := (list_param s ! iter)\<lparr>min_b := min_b currentInterval,
                                                                   max_b := max_b compInterval\<rparr>]) it\<rparr>
          else inner_frame it currentInterval (Suc iter) s
      else s)"
  by pat_completeness auto
termination
  by (relation "measure (\<lambda>(it, cur, iter, s). length (list_param s) - iter)") auto

declare inner_frame.simps [simp del]

function outer_frame :: "int \<Rightarrow> frame \<Rightarrow> error + frame" where
  "outer_frame it s =
     (if it \<ge> 0 then
        if nat it < length (list_param s) then
          outer_frame (it - 1) (inner_frame (nat it) (list_param s ! nat it) 0 s)
        else Inl InvalidIterator
      else Inr s)"
  by pat_completeness auto
termination
  by (relation "measure (\<lambda>(it, s). nat (it + 1))") auto

declare outer_frame.simps [simp del]

definition call_merge :: "Interval list \<Rightarrow> error + frame" where
  "call_merge v =
     (let s = \<lparr>caller_vector = v, list_param = v\<rparr> in
      if list_param s = [] then Inl InvalidIterator
      else outer_frame (int (length (list_param s)) - 1) s)"

section \<open>The test function\<close>

text \<open>The lines written to \<^verbatim>\<open>std::cout\<close>, one constructor for each kind of line.\<close>

datatype line =
    StartTest
  | InputHeader
  | ResultHeader
  | ExpectedHeader
  | IntervalLine int int
  | TestFailed
  | SizeMismatch nat nat
  | NotEqualToExpected
  | Stars
  | TestSuccessfull

text \<open>\<^verbatim>\<open>printIntervals\<close>: one line \<^verbatim>\<open>[min,max]\<close> for each interval, in order.\<close>

definition printIntervals :: "Interval list \<Rightarrow> line list" where
  "printIntervals intervals = map (\<lambda>interval. IntervalLine (min_b interval) (max_b interval)) intervals"

text \<open>
  \<^verbatim>\<open>std::equal(result.begin(), result.end(), expected.begin(), pred)\<close> with the lambda
  of lines 118-119 as \<open>pred\<close>. It walks both vectors from the front and stops at the
  first pair the lambda rejects. The second range has no end: when \<open>expected\<close> is
  exhausted first, the next read is past its end and the value of the call is
  indeterminate (\<open>None\<close>).
\<close>

fun std_equal :: "Interval list \<Rightarrow> Interval list \<Rightarrow> bool option" where
  "std_equal [] expected = Some True"
| "std_equal (a # result) [] = None"
| "std_equal (a # result) (b # expected) =
     (if min_b a = min_b b \<and> max_b a = max_b b then std_equal result expected else Some False)"

text \<open>
  What a call of \<^verbatim>\<open>testMerge\<close> leaves behind: the lines on the console and the
  value handed back to the caller. The function is declared \<^verbatim>\<open>bool\<close>, and its body
  ends at line 135 without a \<^verbatim>\<open>return\<close> statement, so no value is handed back.
\<close>

record test_run =
  console :: "line list"
  returned :: "bool option"

text \<open>
  \<^verbatim>\<open>bool testMerge(std::vector<Interval> input, std::vector<Interval> expected, bool verbose)\<close>.
  The sizes are compared before \<open>equal\<close> is looked at, and for equal sizes \<open>equal\<close> is
  never indeterminate. A failure inside \<open>merge\<close> ends the run.
\<close>

definition testMerge :: "Interval list \<Rightarrow> Interval list \<Rightarrow> bool \<Rightarrow> error + test_run" where
  "testMerge input expected verbose =
     (case merge input of
        Inl e \<Rightarrow> Inl e
      | Inr result \<Rightarrow>
          let shown =
                (if verbose then
                   [InputHeader] @ printIntervals input @
                   [ResultHeader] @ printIntervals result @
                   [ExpectedHeader] @ printIntervals expected
                 else []);
              equal = std_equal result expected;
              verdict =
                (if length result \<noteq> length expected then
                   [TestFailed, SizeMismatch (length result) (length expected), Stars]
                 else if equal \<noteq> Some True then
                   [TestFailed, NotEqualToExpected, Stars]
                 else [TestSuccessfull])
          in Inr \<lparr>console = [StartTest] @ shown @ verdict, returned = None\<rparr>)"

section \<open>Notions of the specification\<close>

text \<open>A well-formed interval has \<open>min \<le> max\<close>.\<close>

definition well_formed :: "Interval \<Rightarrow> bool" where
  "well_formed x \<longleftrightarrow> min_b x \<le> max_b x"

text \<open>The integers covered by a sequence of closed intervals.\<close>

definition covered :: "Interval list \<Rightarrow> int set" where
  "covered list = (\<Union>x\<in>set list. {min_b x..max_b x})"

section \<open>Auxiliary notions for the proofs\<close>

text \<open>Neither test of the inner loop passes for the pair.\<close>

definition no_rule :: "Interval \<Rightarrow> Interval \<Rightarrow> bool" where
  "no_rule cur other \<longleftrightarrow> \<not> is_subset cur other \<and> \<not> overlaps cur other"

text \<open>The three ways a scan of the inner loop can end.\<close>

definition scan_result :: "nat \<Rightarrow> Interval \<Rightarrow> Interval list \<Rightarrow> Interval list \<Rightarrow> bool" where
  "scan_result it cur list r \<longleftrightarrow>
     (r = list \<and> (\<forall>k<length list. k \<noteq> it \<longrightarrow> no_rule cur (list ! k)))
   \<or> (\<exists>j<length list. j \<noteq> it \<and> is_subset cur (list ! j) \<and> r = erase list it)
   \<or> (\<exists>j<length list. j \<noteq> it \<and> overlaps cur (list ! j)
          \<and> r = erase (list[j := (list ! j)\<lparr>min_b := min_b cur\<rparr>]) it)"

text \<open>
  The invariant of the outer loop: no test passes for an element behind position \<open>it\<close>
  against any other element.
\<close>

definition fixed_above :: "int \<Rightarrow> Interval list \<Rightarrow> bool" where
  "fixed_above it list \<longleftrightarrow>
     (\<forall>j<length list. \<forall>k<length list. it < int j \<longrightarrow> k \<noteq> j \<longrightarrow> no_rule (list ! j) (list ! k))"

definition separated :: "Interval list \<Rightarrow> bool" where
  "separated list \<longleftrightarrow> (\<forall>a\<in>set list. \<forall>b\<in>set list. a \<noteq> b \<longrightarrow> no_rule a b)"

text \<open>
  The points of an interval on a grid of half steps: two intervals with a gap of one
  between them, as \<open>[1,4]\<close> and \<open>[5,10]\<close>, leave the odd point between them uncovered.
\<close>

definition doubled :: "Interval \<Rightarrow> int set" where
  "doubled x = {2 * min_b x..2 * max_b x}"

text \<open>Every input interval lies inside some interval of the working list.\<close>

definition dominated :: "Interval list \<Rightarrow> Interval list \<Rightarrow> bool" where
  "dominated X list \<longleftrightarrow> (\<forall>x\<in>set X. \<exists>y\<in>set list. is_subset x y)"

text \<open>
  Every well-formed interval of the working list is covered by the input, and every
  other one is an input interval.
\<close>

definition justified :: "Interval list \<Rightarrow> Interval list \<Rightarrow> bool" where
  "justified X list \<longleftrightarrow>
     (\<forall>y\<in>set list. if well_formed y then doubled y \<subseteq> (\<Union>x\<in>set X. doubled x) else y \<in> set X)"

definition bounds_from :: "Interval list \<Rightarrow> Interval list \<Rightarrow> bool" where
  "bounds_from X list \<longleftrightarrow>
     min_b ` set list \<subseteq> min_b ` set X \<and> max_b ` set list \<subseteq> max_b ` set X"

definition merge_inv :: "Interval list \<Rightarrow> int \<Rightarrow> Interval list \<Rightarrow> bool" where
  "merge_inv X it list \<longleftrightarrow>
     list \<noteq> [] \<and> length list \<le> length X \<and> fixed_above it list \<and> dominated X list
     \<and> justified X list \<and> bounds_from X list"

section \<open>Erasing from a vector\<close>

lemma length_erase: "it < length list \<Longrightarrow> length (erase list it) = length list - 1"
  by (simp add: erase_def)

lemma nth_erase:
  "k < length list - 1 \<Longrightarrow> erase list it ! k = (if k < it then list ! k else list ! Suc k)"
  by (auto simp: erase_def nth_append min_def)

lemma set_erase_subset: "set (erase list it) \<subseteq> set list"
  by (auto simp: erase_def dest: in_set_takeD in_set_dropD)

lemma set_erase_sup:
  assumes "it < length list"
  shows "set list \<subseteq> insert (list ! it) (set (erase list it))"
proof
  fix x assume "x \<in> set list"
  then have "x \<in> set (take it list @ list ! it # drop (Suc it) list)"
    by (simp only: id_take_nth_drop [OF assms, symmetric])
  then show "x \<in> insert (list ! it) (set (erase list it))"
    by (auto simp: erase_def)
qed

lemma nth_in_erase:
  assumes "j < length list" "it < length list" "j \<noteq> it"
  shows "list ! j \<in> set (erase list it)"
proof (cases "j < it")
  case True
  then have "erase list it ! j = list ! j" "j < length (erase list it)"
    using assms by (auto simp: nth_erase length_erase)
  then show ?thesis by (metis nth_mem)
next
  case False
  then obtain k where k: "j = Suc k" "it \<le> k" using assms(3)
    by (cases j) auto
  then have "erase list it ! k = list ! j" "k < length (erase list it)"
    using assms by (auto simp: nth_erase length_erase)
  then show ?thesis by (metis nth_mem)
qed

section \<open>The inner loop\<close>

text \<open>
  One step of the loop at a time, then the three ways a scan can end: nothing passes a
  test and the list is unchanged, the current element is a subset of another one and is
  erased, or it overlaps another one, which is widened before the current one is erased.
\<close>

lemma inner_end: "\<not> iter < length list \<Longrightarrow> inner it cur iter list = list"
  by (simp add: inner.simps [of it cur iter list])

lemma inner_skip: "iter < length list \<Longrightarrow> inner iter cur iter list = inner iter cur (Suc iter) list"
  by (simp add: inner.simps [of iter cur iter list])

lemma inner_subset:
  "iter < length list \<Longrightarrow> it \<noteq> iter \<Longrightarrow> is_subset cur (list ! iter) \<Longrightarrow>
   inner it cur iter list = erase list it"
  by (simp add: inner.simps [of it cur iter list])

lemma inner_overlap:
  "iter < length list \<Longrightarrow> it \<noteq> iter \<Longrightarrow> \<not> is_subset cur (list ! iter) \<Longrightarrow>
   overlaps cur (list ! iter) \<Longrightarrow>
   inner it cur iter list = erase (list[iter := (list ! iter)\<lparr>min_b := min_b cur\<rparr>]) it"
  by (simp add: inner.simps [of it cur iter list])

lemma inner_next:
  "iter < length list \<Longrightarrow> it \<noteq> iter \<Longrightarrow> no_rule cur (list ! iter) \<Longrightarrow>
   inner it cur iter list = inner it cur (Suc iter) list"
  by (simp add: inner.simps [of it cur iter list] no_rule_def)

lemma inner_scan:
  "\<forall>k<iter. k \<noteq> it \<longrightarrow> no_rule cur (list ! k) \<Longrightarrow>
   scan_result it cur list (inner it cur iter list)"
proof (induction it cur iter list rule: inner.induct)
  case (1 it cur iter list)
  show ?case
  proof (cases "iter < length list")
    case False
    then have "\<forall>k<length list. k \<noteq> it \<longrightarrow> no_rule cur (list ! k)"
      using "1.prems" by simp
    then show ?thesis using False by (simp add: inner_end scan_result_def)
  next
    case lt: True
    show ?thesis
    proof (cases "it = iter")
      case True
      have "\<forall>k<Suc iter. k \<noteq> it \<longrightarrow> no_rule cur (list ! k)"
        using "1.prems" True by (auto simp: less_Suc_eq)
      from "1.IH"(1) [OF lt True this] show ?thesis
        using lt True by (simp add: inner_skip)
    next
      case ne: False
      show ?thesis
      proof (cases "is_subset cur (list ! iter)")
        case True
        then show ?thesis using lt ne
          unfolding scan_result_def inner_subset [OF lt ne True] by blast
      next
        case ns: False
        show ?thesis
        proof (cases "overlaps cur (list ! iter)")
          case True
          then show ?thesis using lt ne
            unfolding scan_result_def inner_overlap [OF lt ne ns True] by blast
        next
          case False
          then have nr: "no_rule cur (list ! iter)" using ns by (simp add: no_rule_def)
          then have "\<forall>k<Suc iter. k \<noteq> it \<longrightarrow> no_rule cur (list ! k)"
            using "1.prems" by (auto simp: less_Suc_eq)
          from "1.IH"(2) [OF lt ne refl ns False this] show ?thesis
            by (simp add: inner_next [OF lt ne nr])
        qed
      qed
    qed
  qed
qed

lemma inner_0: "scan_result it cur list (inner it cur 0 list)"
  by (rule inner_scan) simp

lemma scan_length:
  "scan_result it cur list r \<Longrightarrow> it < length list \<Longrightarrow>
   length r = length list \<or> (Suc (length r) = length list \<and> 2 \<le> length list)"
  unfolding scan_result_def by (auto simp: length_erase)

lemma scan_sets:
  assumes "scan_result it cur list r" "it < length list" "cur = list ! it"
  shows "r = list
    \<or> (\<exists>c\<in>set r. is_subset cur c \<and> set r \<subseteq> set list \<and> set list \<subseteq> insert cur (set r))
    \<or> (\<exists>c\<in>set list. overlaps cur c \<and> c\<lparr>min_b := min_b cur\<rparr> \<in> set r
          \<and> set r \<subseteq> insert (c\<lparr>min_b := min_b cur\<rparr>) (set list)
          \<and> set list \<subseteq> insert cur (insert c (set r)))"
  using assms(1) unfolding scan_result_def
proof (elim disjE exE conjE)
  assume "r = list" then show ?thesis by simp
next
  fix j assume j: "j < length list" "j \<noteq> it" "is_subset cur (list ! j)" "r = erase list it"
  have "list ! j \<in> set r" using j assms(2) by (simp add: nth_in_erase)
  moreover have "set r \<subseteq> set list" using j by (simp add: set_erase_subset)
  moreover have "set list \<subseteq> insert cur (set r)"
    using set_erase_sup [OF assms(2)] j assms(3) by simp
  ultimately show ?thesis using j(3) by blast
next
  fix j assume j: "j < length list" "j \<noteq> it" "overlaps cur (list ! j)"
    "r = erase (list[j := (list ! j)\<lparr>min_b := min_b cur\<rparr>]) it"
  let ?c = "list ! j" 
  let ?l = "list[j := ?c\<lparr>min_b := min_b cur\<rparr>]"
  have len: "length ?l = length list" by simp
  have "?l ! j \<in> set r" 
    unfolding j(4) using j(1,2) assms(2) by (intro nth_in_erase) simp_all
  then have 1: "?c\<lparr>min_b := min_b cur\<rparr> \<in> set r" using j(1) by simp
  have "set r \<subseteq> set ?l" unfolding j(4) by (rule set_erase_subset)
  then have 2: "set r \<subseteq> insert (?c\<lparr>min_b := min_b cur\<rparr>) (set list)"
    using set_update_subset_insert [of list j] by blast
  have "set ?l \<subseteq> insert (?l ! it) (set r)"
    unfolding j(4) using assms(2) by (intro set_erase_sup) simp
  then have a: "set ?l \<subseteq> insert cur (set r)" using j(2) assms(2,3) by simp
  have 3: "set list \<subseteq> insert cur (insert ?c (set r))"
  proof
    fix x assume "x \<in> set list"
    then obtain k where k: "k < length list" "x = list ! k" by (metis in_set_conv_nth)
    show "x \<in> insert cur (insert ?c (set r))"
    proof (cases "k = j")
      case True then show ?thesis using k by simp
    next
      case False
      then have "?l ! k = x" using k by simp
      then have "x \<in> set ?l" using k(1) len by (metis nth_mem)
      then show ?thesis using a by blast
    qed
  qed
  have "?c \<in> set list" using j(1) by simp
  then show ?thesis using 1 2 3 j(3) by blast
qed

lemmas scan_sets_0 = scan_sets [OF inner_0 _ refl]

lemma inner_fixed:
  assumes "\<forall>k<length l. k \<noteq> i \<longrightarrow> no_rule (l ! i) (l ! k)"
  shows "inner i (l ! i) 0 l = l"
  using inner_0 [of i "l ! i" l] assms unfolding scan_result_def no_rule_def by blast

section \<open>The outer loop\<close>

text \<open>
  An invariant that holds at the start and is kept by every scan holds for the list that
  the loop returns; and started inside the vector, the loop never reads outside it.
\<close>

lemma outer_rule:
  assumes "- 1 \<le> it" "it < int (length list)" "P it list"
    and step: "\<And>i l. 0 \<le> i \<Longrightarrow> i < int (length l) \<Longrightarrow> P i l \<Longrightarrow>
                 P (i - 1) (inner (nat i) (l ! nat i) 0 l)"
  shows "\<exists>ys. outer it list = Inr ys \<and> P (- 1) ys"
  using assms(1-3)
proof (induction it list rule: outer.induct)
  case (1 it list)
  show ?case
  proof (cases "0 \<le> it")
    case False
    then have "it = - 1" using "1.prems" by simp
    then show ?thesis using "1.prems" by (simp add: outer.simps [of "- 1" list])
  next
    case True
    then have lt: "nat it < length list" using "1.prems" by simp
    let ?l = "inner (nat it) (list ! nat it) 0 list"
    have "length ?l = length list \<or> Suc (length ?l) = length list"
      using scan_length [OF inner_0 lt] by blast
    then have b: "it - 1 < int (length ?l)" using "1.prems" by auto
    have "P (it - 1) ?l" using step True "1.prems" by simp
    from "1.IH" [OF True lt _ b this] True
    have "\<exists>ys. outer (it - 1) ?l = Inr ys \<and> P (- 1) ys" by simp
    then show ?thesis using True lt by (simp add: outer.simps [of it list])
  qed
qed

section \<open>The invariant of merge\<close>

text \<open>
  The in-place update of the second rule keeps every visited element clear of the widened
  one, and the widened one clear of all others; so one backward pass is enough.
\<close>

lemma no_rule_widened_other:
  "overlaps cur c \<Longrightarrow> no_rule s cur \<Longrightarrow> no_rule s c \<Longrightarrow> no_rule s (c\<lparr>min_b := min_b cur\<rparr>)"
  by (auto simp: no_rule_def is_subset_def overlaps_def)

lemma no_rule_widened_self:
  "overlaps cur c \<Longrightarrow> no_rule c t \<Longrightarrow> no_rule (c\<lparr>min_b := min_b cur\<rparr>) t"
  by (auto simp: no_rule_def is_subset_def overlaps_def)

lemma no_rule_wf:
  "min_b s \<le> max_b s \<Longrightarrow> no_rule s t \<longleftrightarrow> \<not> (min_b t \<le> max_b s \<and> max_b s \<le> max_b t)"
  by (auto simp: no_rule_def is_subset_def overlaps_def)

lemma fixed_above_erase:
  assumes i: "i < length l"
    and H: "\<And>j k. j < length l \<Longrightarrow> k < length l \<Longrightarrow> i < j \<Longrightarrow> k \<noteq> j \<Longrightarrow> k \<noteq> i \<Longrightarrow>
              no_rule (l ! j) (l ! k)"
  shows "fixed_above (int i - 1) (erase l i)"
  unfolding fixed_above_def
proof (intro allI impI)
  fix j k
  assume a: "j < length (erase l i)" "k < length (erase l i)" "int i - 1 < int j" "k \<noteq> j"
  have len: "length (erase l i) = length l - 1" using i by (rule length_erase)
  have j: "erase l i ! j = l ! Suc j" using a(1,3) len by (simp add: nth_erase)
  have k: "erase l i ! k = l ! (if k < i then k else Suc k)"
    using a(2) len by (simp add: nth_erase)
  have "no_rule (l ! Suc j) (l ! (if k < i then k else Suc k))"
    using a len by (intro H) auto
  then show "no_rule (erase l i ! j) (erase l i ! k)" by (simp only: j k)
qed

lemma fixed_above_step:
  assumes "0 \<le> i" "i < int (length l)" "fixed_above i l"
  shows "fixed_above (i - 1) (inner (nat i) (l ! nat i) 0 l)"
proof -
  let ?i = "nat i" and ?cur = "l ! nat i"
  have i: "?i < length l" "int ?i = i" using assms(1,2) by auto
  have inv: "\<And>j k. j < length l \<Longrightarrow> k < length l \<Longrightarrow> ?i < j \<Longrightarrow> k \<noteq> j \<Longrightarrow>
              no_rule (l ! j) (l ! k)"
    using assms(3) i(2) unfolding fixed_above_def by (metis of_nat_less_iff)
  have "scan_result ?i ?cur l (inner ?i ?cur 0 l)" by (rule inner_0)
  then consider
      (keep) "inner ?i ?cur 0 l = l" "\<forall>k<length l. k \<noteq> ?i \<longrightarrow> no_rule ?cur (l ! k)"
    | (subset) "inner ?i ?cur 0 l = erase l ?i"
    | (overlap) j where "j < length l" "j \<noteq> ?i" "overlaps ?cur (l ! j)"
        "inner ?i ?cur 0 l = erase (l[j := (l ! j)\<lparr>min_b := min_b ?cur\<rparr>]) ?i"
    unfolding scan_result_def by blast
  then show ?thesis
  proof cases
    case keep
    show ?thesis unfolding keep(1) fixed_above_def
    proof (intro allI impI)
      fix j k assume a: "j < length l" "k < length l" "i - 1 < int j" "k \<noteq> j"
      show "no_rule (l ! j) (l ! k)"
      proof (cases "j = ?i")
        case True then show ?thesis using keep(2) a by simp
      next
        case False
        then have "?i < j" using a(3) assms(1) by linarith
        then show ?thesis using inv a by simp
      qed
    qed
  next
    case subset
    have "fixed_above (int ?i - 1) (erase l ?i)"
      using i(1) inv by (intro fixed_above_erase) simp_all
    then show ?thesis by (simp only: subset i(2))
  next
    case overlap
    let ?new = "(l ! j)\<lparr>min_b := min_b ?cur\<rparr>"
    let ?l = "l[j := ?new]"
    have "fixed_above (int ?i - 1) (erase ?l ?i)"
    proof (rule fixed_above_erase)
      show "?i < length ?l" using i(1) by simp
    next
      fix J K
      assume a: "J < length ?l" "K < length ?l" "?i < J" "K \<noteq> J" "K \<noteq> ?i"
      then have b: "J < length l" "K < length l" by simp_all
      show "no_rule (?l ! J) (?l ! K)"
      proof (cases "J = j")
        case True
        then have "no_rule (l ! j) (l ! K)" using inv b a by simp
        then have "no_rule ?new (l ! K)" using overlap(3) by (rule no_rule_widened_self [rotated])
        then show ?thesis using True a(4) b by simp
      next
        case Jj: False
        show ?thesis
        proof (cases "K = j")
          case True
          have "no_rule (l ! J) ?cur" using inv [of J ?i] b a(3) i(1) by simp
          moreover have "no_rule (l ! J) (l ! j)" using inv [of J j] b a(3) Jj overlap(1) by simp
          ultimately have "no_rule (l ! J) ?new" using overlap(3) by (intro no_rule_widened_other)
          then show ?thesis using True Jj b by simp
        next
          case False
          then show ?thesis using Jj inv [of J K] a b by simp
        qed
      qed
    qed
    then show ?thesis by (simp only: overlap(4) i(2))
  qed
qed

lemma fixed_above_all:
  "fixed_above (- 1) Y \<Longrightarrow> j < length Y \<Longrightarrow> k < length Y \<Longrightarrow> k \<noteq> j \<Longrightarrow> no_rule (Y ! j) (Y ! k)"
  unfolding fixed_above_def by simp

lemma fixed_above_separated: "fixed_above (- 1) Y \<Longrightarrow> separated Y"
  unfolding separated_def
proof (intro ballI impI)
  fix a b assume f: "fixed_above (- 1) Y" and "a \<in> set Y" "b \<in> set Y" "a \<noteq> b"
  then obtain j k where "j < length Y" "k < length Y" "a = Y ! j" "b = Y ! k"
    by (metis in_set_conv_nth)
  then show "no_rule a b" using fixed_above_all [OF f, of j k] \<open>a \<noteq> b\<close> by auto
qed

lemma outer_fixed:
  assumes "fixed_above (- 1) Y" "- 1 \<le> it" "it < int (length Y)"
  shows "outer it Y = Inr Y"
proof -
  have "\<exists>ys. outer it Y = Inr ys \<and> ys = Y"
  proof (rule outer_rule [where P = "\<lambda>i l. l = Y"])
    fix i l assume a: "0 \<le> i" "i < int (length l)" "l = Y"
    have "\<forall>k<length Y. k \<noteq> nat i \<longrightarrow> no_rule (Y ! nat i) (Y ! k)"
      using assms(1) a unfolding fixed_above_def by simp
    then show "inner (nat i) (l ! nat i) 0 l = Y" using a(3) by (simp add: inner_fixed)
  qed (use assms in simp_all)
  then show ?thesis by simp
qed

lemma is_subset_refl: "is_subset x x"
  by (simp add: is_subset_def)

lemma is_subset_trans: "is_subset x y \<Longrightarrow> is_subset y z \<Longrightarrow> is_subset x z"
  by (auto simp: is_subset_def)

lemma is_subset_antisym: "is_subset x y \<Longrightarrow> is_subset y x \<Longrightarrow> x = (y::Interval)"
  by (auto simp: is_subset_def)

lemma overlaps_widened:
  assumes "overlaps cur c"
  shows "is_subset cur (c\<lparr>min_b := min_b cur\<rparr>)" "is_subset c (c\<lparr>min_b := min_b cur\<rparr>)"
    "well_formed cur" "well_formed c" "well_formed (c\<lparr>min_b := min_b cur\<rparr>)"
    "doubled (c\<lparr>min_b := min_b cur\<rparr>) = doubled cur \<union> doubled c"
  using assms by (auto simp: overlaps_def is_subset_def well_formed_def doubled_def)

lemma dominated_step:
  assumes "i < length l" "dominated X l"
  shows "dominated X (inner i (l ! i) 0 l)"
  unfolding dominated_def
proof
  fix x assume "x \<in> set X"
  then obtain y where y: "y \<in> set l" "is_subset x y" using assms(2) by (auto simp: dominated_def)
  let ?r = "inner i (l ! i) 0 l" and ?cur = "l ! i"
  from scan_sets_0 [OF assms(1)] consider
      (keep) "?r = l"
    | (subset) c where "c \<in> set ?r" "is_subset ?cur c" "set l \<subseteq> insert ?cur (set ?r)"
    | (overlap) c where "overlaps ?cur c" "c\<lparr>min_b := min_b ?cur\<rparr> \<in> set ?r"
        "set l \<subseteq> insert ?cur (insert c (set ?r))"
    by blast
  then show "\<exists>y\<in>set ?r. is_subset x y"
  proof cases
    case keep then show ?thesis using y by auto
  next
    case subset
    then have "y \<in> set ?r \<or> y = ?cur" using y(1) by blast
    then show ?thesis using y(2) subset(1,2) is_subset_trans by blast
  next
    case overlap
    then have "y \<in> set ?r \<or> y = ?cur \<or> y = c" using y(1) by blast
    then show ?thesis using y(2) overlap(2) overlaps_widened(1,2) [OF overlap(1)] is_subset_trans
      by blast
  qed
qed

lemma justified_step:
  assumes "i < length l" "justified X l"
  shows "justified X (inner i (l ! i) 0 l)"
proof -
  let ?r = "inner i (l ! i) 0 l" and ?cur = "l ! i"
  have cur: "?cur \<in> set l" using assms(1) by simp
  from scan_sets_0 [OF assms(1)] consider
      (keep) "?r = l"
    | (subset) "set ?r \<subseteq> set l"
    | (overlap) c where "c \<in> set l" "overlaps ?cur c"
        "set ?r \<subseteq> insert (c\<lparr>min_b := min_b ?cur\<rparr>) (set l)"
    by blast
  then show ?thesis
  proof cases
    case keep then show ?thesis using assms(2) by simp
  next
    case subset then show ?thesis using assms(2) unfolding justified_def by blast
  next
    case overlap
    note w = overlaps_widened [OF overlap(2)]
    let ?new = "c\<lparr>min_b := min_b ?cur\<rparr>"
    have a: "doubled ?cur \<subseteq> (\<Union>x\<in>set X. doubled x)"
      using assms(2) cur w(3) unfolding justified_def by (auto split: if_splits)
    have b: "doubled c \<subseteq> (\<Union>x\<in>set X. doubled x)"
      using assms(2) overlap(1) w(4) unfolding justified_def by (auto split: if_splits)
    have new: "doubled ?new \<subseteq> (\<Union>x\<in>set X. doubled x)"
      unfolding w(6) using a b by blast
    show ?thesis unfolding justified_def
    proof
      fix y assume "y \<in> set ?r"
      then have "y = ?new \<or> y \<in> set l" using overlap(3) by blast
      then show "if well_formed y then doubled y \<subseteq> (\<Union>x\<in>set X. doubled x) else y \<in> set X"
      proof
        assume "y = ?new" then show ?thesis using new w(5) by simp
      next
        assume "y \<in> set l" then show ?thesis using assms(2) unfolding justified_def by blast
      qed
    qed
  qed
qed

lemma bounds_from_step:
  assumes "i < length l" "bounds_from X l"
  shows "bounds_from X (inner i (l ! i) 0 l)"
proof -
  let ?r = "inner i (l ! i) 0 l" and ?cur = "l ! i"
  have cur: "?cur \<in> set l" using assms(1) by simp
  have l: "\<And>y. y \<in> set l \<Longrightarrow> min_b y \<in> min_b ` set X \<and> max_b y \<in> max_b ` set X"
    using assms(2) unfolding bounds_from_def by blast
  from scan_sets_0 [OF assms(1)] consider
      (keep) "?r = l"
    | (subset) "set ?r \<subseteq> set l"
    | (overlap) c where "c \<in> set l"
        "set ?r \<subseteq> insert (c\<lparr>min_b := min_b ?cur\<rparr>) (set l)"
    by blast
  then have "\<And>y. y \<in> set ?r \<Longrightarrow> min_b y \<in> min_b ` set X \<and> max_b y \<in> max_b ` set X"
  proof cases
    case keep then show "\<And>y. y \<in> set ?r \<Longrightarrow> ?thesis y" using l by simp
  next
    case subset then show "\<And>y. y \<in> set ?r \<Longrightarrow> ?thesis y" using l by blast
  next
    case overlap
    fix y assume "y \<in> set ?r"
    then have "y = c\<lparr>min_b := min_b ?cur\<rparr> \<or> y \<in> set l" using overlap(2) by blast
    then show "min_b y \<in> min_b ` set X \<and> max_b y \<in> max_b ` set X"
    proof
      assume "y = c\<lparr>min_b := min_b ?cur\<rparr>"
      then have "min_b y = min_b ?cur" "max_b y = max_b c" by simp_all
      then show ?thesis using l [OF cur] l [OF overlap(1)] by simp
    next
      assume "y \<in> set l" then show ?thesis by (rule l)
    qed
  qed
  then show ?thesis unfolding bounds_from_def by blast
qed

lemma merge_inv_step:
  assumes "0 \<le> i" "i < int (length l)" "merge_inv X i l"
  shows "merge_inv X (i - 1) (inner (nat i) (l ! nat i) 0 l)"
proof -
  have i: "nat i < length l" using assms(1,2) by simp
  have "length (inner (nat i) (l ! nat i) 0 l) = length l
      \<or> (Suc (length (inner (nat i) (l ! nat i) 0 l)) = length l \<and> 2 \<le> length l)"
    using scan_length [OF inner_0 i] .
  then have "inner (nat i) (l ! nat i) 0 l \<noteq> []" "length (inner (nat i) (l ! nat i) 0 l) \<le> length X"
    using assms(3) unfolding merge_inv_def by auto
  then show ?thesis
    using assms fixed_above_step [OF assms(1,2)] dominated_step [OF i] justified_step [OF i]
      bounds_from_step [OF i]
    unfolding merge_inv_def by blast
qed

lemma merge_inv_init: "X \<noteq> [] \<Longrightarrow> merge_inv X (int (length X) - 1) X"
  unfolding merge_inv_def fixed_above_def dominated_def justified_def bounds_from_def
  by (auto intro: is_subset_refl)

lemma merge_returns:
  assumes "X \<noteq> []"
  shows "\<exists>Y. merge X = Inr Y \<and> merge_inv X (- 1) Y"
proof -
  have "\<exists>ys. outer (int (length X) - 1) X = Inr ys \<and> merge_inv X (- 1) ys"
    using assms by (intro outer_rule merge_inv_init merge_inv_step) simp_all
  then show ?thesis using assms by (simp add: merge_def)
qed

lemma merge_Inr: "merge X = Inr Y \<Longrightarrow> X \<noteq> [] \<and> merge_inv X (- 1) Y"
  using merge_returns [of X] by (auto simp: merge_def split: if_splits)

section \<open>Consequences of the invariant\<close>

lemma justified_well_formed:
  "justified X Y \<Longrightarrow> \<forall>x\<in>set X. well_formed x \<Longrightarrow> y \<in> set Y \<Longrightarrow> well_formed y"
  unfolding justified_def by (metis (full_types))

lemma disjoint_wf:
  assumes "well_formed s" "well_formed t" "no_rule s t" "no_rule t s"
  shows "max_b s < min_b t \<or> max_b t < min_b s"
  using assms by (auto simp: no_rule_def is_subset_def overlaps_def well_formed_def)

lemma is_subset_range: "is_subset x y \<Longrightarrow> {min_b x..max_b x} \<subseteq> {min_b y..max_b y}"
  by (auto simp: is_subset_def)

lemma doubled_point: "p \<in> {min_b x..max_b x} \<longleftrightarrow> 2 * p \<in> doubled x"
  by (auto simp: doubled_def)

lemma dominated_covered: "dominated X Y \<Longrightarrow> covered X \<subseteq> covered Y"
  unfolding dominated_def covered_def using is_subset_range by blast

lemma justified_covered:
  assumes "justified X Y" "\<forall>x\<in>set X. well_formed x"
  shows "covered Y \<subseteq> covered X"
proof
  fix p assume "p \<in> covered Y"
  then obtain y where y: "y \<in> set Y" "p \<in> {min_b y..max_b y}" by (auto simp: covered_def)
  have "well_formed y" using justified_well_formed [OF assms y(1)] .
  then have "doubled y \<subseteq> (\<Union>x\<in>set X. doubled x)"
    using assms(1) y(1) unfolding justified_def by (auto split: if_splits)
  moreover have "2 * p \<in> doubled y" using y(2) by (simp only: doubled_point)
  ultimately obtain x where "x \<in> set X" "2 * p \<in> doubled x" by blast
  then show "p \<in> covered X" unfolding covered_def using doubled_point by blast
qed

section \<open>The merged intervals are determined by the set of input intervals\<close>

text \<open>
  A separated list that dominates the input and is justified by it is unique up to order:
  its well-formed intervals are the maximal runs of covered half-step points, and its
  other intervals are the input intervals that lie inside no other input interval.
\<close>

lemma gap_left:
  "no_rule z y \<Longrightarrow> no_rule y z \<Longrightarrow> 2 * min_b y - 1 \<in> doubled z \<Longrightarrow> False"
  by (auto simp: no_rule_def is_subset_def overlaps_def doubled_def)

lemma gap_right:
  "no_rule y z \<Longrightarrow> 2 * max_b y + 1 \<in> doubled z \<Longrightarrow> False"
  by (auto simp: no_rule_def is_subset_def overlaps_def doubled_def)

lemma separated_gap:
  assumes "separated Y" "y \<in> set Y"
  shows "2 * min_b y - 1 \<notin> (\<Union>z\<in>set Y. doubled z)" "2 * max_b y + 1 \<notin> (\<Union>z\<in>set Y. doubled z)"
proof -
  show "2 * min_b y - 1 \<notin> (\<Union>z\<in>set Y. doubled z)"
  proof
    assume "2 * min_b y - 1 \<in> (\<Union>z\<in>set Y. doubled z)"
    then obtain z where z: "z \<in> set Y" "2 * min_b y - 1 \<in> doubled z" by blast
    then have "z \<noteq> y" by (auto simp: doubled_def)
    then have "no_rule z y" "no_rule y z" using assms z(1) unfolding separated_def by auto
    then show False using z(2) by (rule gap_left)
  qed
  show "2 * max_b y + 1 \<notin> (\<Union>z\<in>set Y. doubled z)"
  proof
    assume "2 * max_b y + 1 \<in> (\<Union>z\<in>set Y. doubled z)"
    then obtain z where z: "z \<in> set Y" "2 * max_b y + 1 \<in> doubled z" by blast
    then have "z \<noteq> y" by (auto simp: doubled_def)
    then have "no_rule y z" using assms z(1) unfolding separated_def by auto
    then show False using z(2) by (rule gap_right)
  qed
qed

lemma is_subset_doubled: "is_subset x y \<Longrightarrow> doubled x \<subseteq> doubled y"
  by (auto simp: is_subset_def doubled_def)

lemma doubled_empty: "\<not> well_formed y \<Longrightarrow> doubled y = {}"
  by (auto simp: well_formed_def doubled_def)

lemma dominated_doubled:
  assumes "dominated X Y"
  shows "(\<Union>x\<in>set X. doubled x) \<subseteq> (\<Union>y\<in>set Y. doubled y)"
proof
  fix p assume "p \<in> (\<Union>x\<in>set X. doubled x)"
  then obtain x where x: "x \<in> set X" "p \<in> doubled x" by blast
  then obtain y where y: "y \<in> set Y" "is_subset x y"
    using assms unfolding dominated_def by blast
  then have "p \<in> doubled y" using x(2) is_subset_doubled by blast
  then show "p \<in> (\<Union>y\<in>set Y. doubled y)" using y(1) by blast
qed

lemma justified_doubled:
  assumes "justified X Y"
  shows "(\<Union>y\<in>set Y. doubled y) \<subseteq> (\<Union>x\<in>set X. doubled x)"
proof
  fix p assume "p \<in> (\<Union>y\<in>set Y. doubled y)"
  then obtain y where y: "y \<in> set Y" "p \<in> doubled y" by blast
  then have "well_formed y" using doubled_empty by blast
  then have "doubled y \<subseteq> (\<Union>x\<in>set X. doubled x)"
    using assms y(1) unfolding justified_def by (auto split: if_splits)
  then show "p \<in> (\<Union>x\<in>set X. doubled x)" using y(2) by blast
qed

lemma malformed_inside:
  assumes "\<not> well_formed y" "well_formed y'" "is_subset y y'"
  shows "\<exists>p. 2 * p \<in> doubled y' \<and> (\<forall>x. 2 * p \<in> doubled x \<longrightarrow> is_subset y x)"
proof -
  let ?p = "if min_b y \<le> max_b y' then min_b y else if min_b y' \<le> max_b y then max_b y else min_b y'"
  have "2 * ?p \<in> doubled y'"
    using assms by (auto simp: well_formed_def is_subset_def doubled_def)
  moreover have "\<forall>x. 2 * ?p \<in> doubled x \<longrightarrow> is_subset y x"
    using assms by (auto simp: well_formed_def is_subset_def doubled_def)
  ultimately show ?thesis by blast
qed

lemma separated_subset_eq:
  "separated Y \<Longrightarrow> a \<in> set Y \<Longrightarrow> b \<in> set Y \<Longrightarrow> is_subset a b \<Longrightarrow> a = b"
  unfolding separated_def no_rule_def by blast

lemma canonical_subset:
  assumes Y: "separated Y" "dominated X Y" "justified X Y"
    and Y': "separated Y'" "dominated X Y'" "justified X Y'"
  shows "set Y \<subseteq> set Y'"
proof
  fix y assume y: "y \<in> set Y"
  define DX where "DX = (\<Union>x\<in>set X. doubled x)"
  have inY: "doubled z \<subseteq> DX" if "z \<in> set Y" for z
    using justified_doubled [OF Y(3)] that unfolding DX_def by blast
  have inY': "doubled z \<subseteq> DX" if "z \<in> set Y'" for z
    using justified_doubled [OF Y'(3)] that unfolding DX_def by blast
  have covY: "DX \<subseteq> (\<Union>z\<in>set Y. doubled z)"
    using dominated_doubled [OF Y(2)] unfolding DX_def .
  have covY': "DX \<subseteq> (\<Union>z\<in>set Y'. doubled z)"
    using dominated_doubled [OF Y'(2)] unfolding DX_def .
  have up: "\<exists>z\<in>set Y. is_subset x z" if "x \<in> set X" for x
    using Y(2) that unfolding dominated_def by blast
  show "y \<in> set Y'"
  proof (cases "well_formed y")
    case False
    then have yX: "y \<in> set X" using Y(3) y unfolding justified_def by (auto split: if_splits)
    then obtain y' where y': "y' \<in> set Y'" "is_subset y y'"
      using Y'(2) unfolding dominated_def by blast
    have below: "x = y" if xX: "x \<in> set X" and yx: "is_subset y x" for x
    proof -
      obtain z where z: "z \<in> set Y" "is_subset x z" using up [OF xX] by blast
      have "is_subset y z" using yx z(2) by (rule is_subset_trans)
      with Y(1) y z(1) have "y = z" by (rule separated_subset_eq)
      then have "is_subset x y" using z(2) by simp
      then show ?thesis using yx by (rule is_subset_antisym)
    qed
    show ?thesis
    proof (cases "well_formed y'")
      case False
      then have "y' \<in> set X" using Y'(3) y'(1) unfolding justified_def by (auto split: if_splits)
      then have "y' = y" using y'(2) by (rule below)
      then show ?thesis using y'(1) by simp
    next
      case True
      obtain p where p: "2 * p \<in> doubled y'" "\<forall>x. 2 * p \<in> doubled x \<longrightarrow> is_subset y x"
        using malformed_inside [OF False True y'(2)] by blast
      have "2 * p \<in> DX" using p(1) inY' [OF y'(1)] by blast
      then obtain x where x: "x \<in> set X" "2 * p \<in> doubled x" unfolding DX_def by blast
      have "is_subset y x" using p(2) x(2) by simp
      with x(1) have "x = y" by (rule below)
      then have "2 * p \<in> doubled y" using x(2) by simp
      then show ?thesis using doubled_empty [OF False] by simp
    qed
  next
    case True
    have g: "2 * min_b y - 1 \<notin> DX" "2 * max_b y + 1 \<notin> DX"
      using separated_gap [OF Y(1) y] covY by blast+
    have "2 * min_b y \<in> doubled y" using True by (simp add: well_formed_def doubled_def)
    then have "2 * min_b y \<in> DX" using inY [OF y] by blast
    then obtain y' where y': "y' \<in> set Y'" "2 * min_b y \<in> doubled y'" using covY' by blast
    have g': "2 * max_b y' + 1 \<notin> DX"
      using separated_gap(2) [OF Y'(1) y'(1)] covY' by blast
    note sub = inY' [OF y'(1)] inY [OF y]
    have 1: "min_b y' = min_b y"
    proof (rule ccontr)
      assume "min_b y' \<noteq> min_b y"
      then have "2 * min_b y - 1 \<in> doubled y'" using y'(2) by (auto simp: doubled_def)
      then show False using g(1) sub(1) by blast
    qed
    have 2: "max_b y' = max_b y"
    proof (rule ccontr)
      assume ne: "max_b y' \<noteq> max_b y"
      show False
      proof (cases "max_b y' < max_b y")
        case True
        then have "2 * max_b y' + 1 \<in> doubled y" using y'(2) 1 by (auto simp: doubled_def)
        then show False using g' sub(2) by blast
      next
        case False
        then have "2 * max_b y + 1 \<in> doubled y'" using ne 1 \<open>well_formed y\<close>
          by (auto simp: doubled_def well_formed_def)
        then show False using g(2) sub(1) by blast
      qed
    qed
    have "y' = y" using 1 2 by simp
    then show ?thesis using y'(1) by simp
  qed
qed

lemma set_eq_invariants:
  "set X = set X' \<Longrightarrow> dominated X Y = dominated X' Y"
  "set X = set X' \<Longrightarrow> justified X Y = justified X' Y"
  by (simp_all add: dominated_def justified_def)

section \<open>The loops on a frame\<close>

text \<open>The frame version of each loop changes the parameter as the loop on lists does, and nothing else.\<close>

lemma inner_frame_inner:
  "inner_frame it cur iter s = s\<lparr>list_param := inner it cur iter (list_param s)\<rparr>"
proof (induction it cur iter s rule: inner_frame.induct)
  case (1 it cur iter s)
  show ?case
  proof (cases "iter < length (list_param s)")
    case False
    then show ?thesis
      by (simp add: inner_frame.simps [of it cur iter s] inner.simps [of it cur iter "list_param s"])
  next
    case lt: True
    show ?thesis
    proof (cases "it = iter")
      case True
      then show ?thesis using lt "1.IH"(1) [OF lt True]
        by (simp add: inner_frame.simps [of iter cur iter s] inner.simps [of iter cur iter "list_param s"])
    next
      case ne: False
      show ?thesis
      proof (cases "is_subset cur (list_param s ! iter) \<or> overlaps cur (list_param s ! iter)")
        case True
        then show ?thesis using lt ne
          by (auto simp: Let_def inner_frame.simps [of it cur iter s]
                inner.simps [of it cur iter "list_param s"])
      next
        case False
        then show ?thesis using lt ne "1.IH"(2) [OF lt ne refl]
          by (simp add: Let_def inner_frame.simps [of it cur iter s]
                inner.simps [of it cur iter "list_param s"])
      qed
    qed
  qed
qed

lemma outer_frame_outer:
  "outer_frame it s = case_sum Inl (\<lambda>r. Inr (s\<lparr>list_param := r\<rparr>)) (outer it (list_param s))"
proof (induction it s rule: outer_frame.induct)
  case (1 it s)
  show ?case
  proof (cases "0 \<le> it \<and> nat it < length (list_param s)")
    case False
    then show ?thesis
      by (auto simp: outer_frame.simps [of it s] outer.simps [of it "list_param s"])
  next
    case True
    then have "outer_frame it s = outer_frame (it - 1) (inner_frame (nat it) (list_param s ! nat it) 0 s)"
      by (simp add: outer_frame.simps [of it s])
    also have "\<dots> = case_sum Inl
         (\<lambda>r. Inr ((inner_frame (nat it) (list_param s ! nat it) 0 s)\<lparr>list_param := r\<rparr>))
         (outer (it - 1) (list_param (inner_frame (nat it) (list_param s ! nat it) 0 s)))"
      using "1.IH" True by simp
    also have "\<dots> = case_sum Inl (\<lambda>r. Inr (s\<lparr>list_param := r\<rparr>))
         (outer (it - 1) (inner (nat it) (list_param s ! nat it) 0 (list_param s)))"
      by (simp add: inner_frame_inner split: sum.split)
    also have "\<dots> = case_sum Inl (\<lambda>r. Inr (s\<lparr>list_param := r\<rparr>)) (outer it (list_param s))"
      using True by (simp add: outer.simps [of it "list_param s"])
    finally show ?thesis .
  qed
qed

lemma call_merge_merge:
  "call_merge v = case_sum Inl (\<lambda>r. Inr \<lparr>caller_vector = v, list_param = r\<rparr>) (merge v)"
  by (simp add: call_merge_def merge_def outer_frame_outer split: sum.split)

section \<open>The comparison of the test function\<close>

lemma std_equal_same_length:
  "length result = length expected \<Longrightarrow>
   std_equal result expected =
     Some (\<forall>i<length result. min_b (result ! i) = min_b (expected ! i)
                            \<and> max_b (result ! i) = max_b (expected ! i))"
proof (induction result expected rule: list_induct2)
  case Nil
  then show ?case by simp
next
  case (Cons a result b expected)
  then show ?case by (auto simp: nth_Cons split: nat.splits)
qed

lemma not_success_printed: "TestSuccessfull \<notin> set (printIntervals xs)"
  by (auto simp: printIntervals_def)

lemma testMerge_console:
  assumes "testMerge input expected verbose = Inr run"
  shows "\<exists>result. merge input = Inr result \<and>
     (TestSuccessfull \<in> set (console run) \<longleftrightarrow>
        length result = length expected \<and> std_equal result expected = Some True)"
proof (cases "merge input")
  case (Inl e)
  then show ?thesis using assms by (simp add: testMerge_def)
next
  case (Inr result)
  then have "run = \<lparr>console = [StartTest] @
       (if verbose then
          [InputHeader] @ printIntervals input @ [ResultHeader] @ printIntervals result @
          [ExpectedHeader] @ printIntervals expected
        else []) @
       (if length result \<noteq> length expected then
          [TestFailed, SizeMismatch (length result) (length expected), Stars]
        else if std_equal result expected \<noteq> Some True then
          [TestFailed, NotEqualToExpected, Stars]
        else [TestSuccessfull]), returned = None\<rparr>"
    using assms by (simp add: testMerge_def Let_def)
  then have "TestSuccessfull \<in> set (console run) \<longleftrightarrow>
        length result = length expected \<and> std_equal result expected = Some True"
    by (simp add: not_success_printed)
  then show ?thesis using Inr by simp
qed

section \<open>Properties of merge\<close>

text \<open>
  C1. For an input of well-formed intervals (\<open>min \<le> max\<close>), the sequence returned by
  \<open>merge\<close> is a fixed point of the two rules: for every two distinct positions of the
  output neither interval is a subset of the other, neither overlaps the other, and the
  \<open>max\<close> of one is strictly less than the \<open>min\<close> of the other. This includes intervals
  that share their \<open>min\<close>: they never both survive.
\<close>

theorem merge_output_fixed_point:
  assumes "merge X = Inr Y" and "\<forall>x\<in>set X. min_b x \<le> max_b x"
    and "j < length Y" "k < length Y" "j \<noteq> k"
  shows "\<not> is_subset (Y ! j) (Y ! k) \<and> \<not> is_subset (Y ! k) (Y ! j)
       \<and> \<not> overlaps (Y ! j) (Y ! k) \<and> \<not> overlaps (Y ! k) (Y ! j)
       \<and> (max_b (Y ! j) < min_b (Y ! k) \<or> max_b (Y ! k) < min_b (Y ! j))"
proof -
  have inv: "merge_inv X (- 1) Y" using merge_Inr [OF assms(1)] by simp
  then have f: "fixed_above (- 1) Y" and ju: "justified X Y" by (simp_all add: merge_inv_def)
  have a: "no_rule (Y ! j) (Y ! k)" using fixed_above_all [OF f assms(3,4)] assms(5) by simp
  have b: "no_rule (Y ! k) (Y ! j)" using fixed_above_all [OF f assms(4,3)] assms(5) by simp
  have wf: "\<forall>x\<in>set X. well_formed x" using assms(2) by (simp add: well_formed_def)
  have "well_formed (Y ! j)" "well_formed (Y ! k)"
    using justified_well_formed [OF ju wf] assms(3,4) by simp_all
  then have "max_b (Y ! j) < min_b (Y ! k) \<or> max_b (Y ! k) < min_b (Y ! j)"
    using a b by (rule disjoint_wf)
  then show ?thesis using a b by (simp add: no_rule_def)
qed

theorem merge_output_fixed_point_witness:
  "merge [\<lparr>min_b = 1, max_b = 3\<rparr>, \<lparr>min_b = 1, max_b = 4\<rparr>, \<lparr>min_b = 6, max_b = 8\<rparr>]
     = Inr [\<lparr>min_b = 1, max_b = 4\<rparr>, \<lparr>min_b = 6, max_b = 8\<rparr>]
   \<and> \<not> is_subset \<lparr>min_b = 1, max_b = 4\<rparr> \<lparr>min_b = 6, max_b = 8\<rparr>
   \<and> \<not> overlaps \<lparr>min_b = 1, max_b = 4\<rparr> \<lparr>min_b = 6, max_b = 8\<rparr>
   \<and> ((4::int) < 6 \<or> (8::int) < 1)"
proof -
  let ?X = "[\<lparr>min_b = 1, max_b = 3\<rparr>, \<lparr>min_b = 1, max_b = 4\<rparr>, \<lparr>min_b = 6, max_b = 8\<rparr>]"
  let ?Y = "[\<lparr>min_b = 1, max_b = 4\<rparr>, \<lparr>min_b = 6, max_b = 8\<rparr>]"
  have m: "merge ?X = Inr ?Y" by code_simp
  have wf: "\<forall>x\<in>set ?X. min_b x \<le> max_b x" by simp
  show ?thesis using merge_output_fixed_point [OF m wf, of 0 1] m by simp
qed

text \<open>
  C2. Coverage is preserved: for an input of well-formed intervals, the integers covered
  by the intervals that \<open>merge\<close> returns are exactly the integers covered by the input
  intervals. No covered point is lost and none is added.
\<close>

theorem merge_preserves_coverage:
  assumes "merge X = Inr Y" and "\<forall>x\<in>set X. min_b x \<le> max_b x"
  shows "covered Y = covered X"
proof -
  have inv: "merge_inv X (- 1) Y" using merge_Inr [OF assms(1)] by simp
  have wf: "\<forall>x\<in>set X. well_formed x" using assms(2) by (simp add: well_formed_def)
  have "covered X \<subseteq> covered Y" using inv by (simp add: merge_inv_def dominated_covered)
  moreover have "covered Y \<subseteq> covered X"
    using inv wf by (simp add: merge_inv_def justified_covered)
  ultimately show ?thesis by blast
qed

theorem merge_preserves_coverage_witness:
  "merge [\<lparr>min_b = 1, max_b = 5\<rparr>, \<lparr>min_b = 5, max_b = 10\<rparr>] = Inr [\<lparr>min_b = 1, max_b = 10\<rparr>]
   \<and> covered [\<lparr>min_b = 1, max_b = 10\<rparr>]
     = covered [\<lparr>min_b = 1, max_b = 5\<rparr>, \<lparr>min_b = 5, max_b = 10\<rparr>]"
proof -
  let ?X = "[\<lparr>min_b = 1, max_b = 5\<rparr>, \<lparr>min_b = 5, max_b = 10\<rparr>]"
  have m: "merge ?X = Inr [\<lparr>min_b = 1, max_b = 10\<rparr>]" by code_simp
  have wf: "\<forall>x\<in>set ?X. min_b x \<le> max_b x" by simp
  show ?thesis using merge_preserves_coverage [OF m wf] m by simp
qed

text \<open>
  C4. Order independence: \<open>merge\<close> applied to a permutation of the input returns the
  same intervals, as an unordered set of \<open>(min, max)\<close> pairs, as \<open>merge\<close> applied to
  the input. The intervals need not be well-formed.
\<close>

theorem merge_order_independent:
  assumes "mset X' = mset X" and "merge X = Inr Y"
  shows "\<exists>Y'. merge X' = Inr Y' \<and> set Y' = set Y"
proof -
  have s: "set X' = set X" using assms(1) by (rule mset_eq_setD)
  have "X \<noteq> []" using merge_Inr [OF assms(2)] by simp
  then have "X' \<noteq> []" using s by auto
  then obtain Y' where Y': "merge X' = Inr Y'" "merge_inv X' (- 1) Y'"
    using merge_returns by blast
  have inv: "merge_inv X (- 1) Y" using merge_Inr [OF assms(2)] by simp
  have a: "separated Y" "dominated X Y" "justified X Y"
    using inv by (simp_all add: merge_inv_def fixed_above_separated)
  have b: "separated Y'" "dominated X Y'" "justified X Y'"
    using Y'(2) set_eq_invariants [OF s] by (simp_all add: merge_inv_def fixed_above_separated)
  have "set Y \<subseteq> set Y'" using a b by (rule canonical_subset)
  moreover have "set Y' \<subseteq> set Y" using b a by (rule canonical_subset)
  ultimately show ?thesis using Y'(1) by blast
qed

theorem merge_order_independent_witness:
  "mset [\<lparr>min_b = 7, max_b = 9\<rparr>, \<lparr>min_b = 2, max_b = 4\<rparr>, \<lparr>min_b = 1, max_b = 3\<rparr>]
     = mset [\<lparr>min_b = 1, max_b = 3\<rparr>, \<lparr>min_b = 2, max_b = 4\<rparr>, \<lparr>min_b = 7, max_b = 9\<rparr>]
   \<and> merge [\<lparr>min_b = 1, max_b = 3\<rparr>, \<lparr>min_b = 2, max_b = 4\<rparr>, \<lparr>min_b = 7, max_b = 9\<rparr>]
     = Inr [\<lparr>min_b = 1, max_b = 4\<rparr>, \<lparr>min_b = 7, max_b = 9\<rparr>]
   \<and> merge [\<lparr>min_b = 7, max_b = 9\<rparr>, \<lparr>min_b = 2, max_b = 4\<rparr>, \<lparr>min_b = 1, max_b = 3\<rparr>]
     = Inr [\<lparr>min_b = 7, max_b = 9\<rparr>, \<lparr>min_b = 1, max_b = 4\<rparr>]
   \<and> (\<exists>Y'. merge [\<lparr>min_b = 7, max_b = 9\<rparr>, \<lparr>min_b = 2, max_b = 4\<rparr>, \<lparr>min_b = 1, max_b = 3\<rparr>] = Inr Y'
          \<and> set Y' = set [\<lparr>min_b = 1, max_b = 4\<rparr>, \<lparr>min_b = 7, max_b = 9\<rparr>])"
proof -
  let ?X = "[\<lparr>min_b = 1, max_b = 3\<rparr>, \<lparr>min_b = 2, max_b = 4\<rparr>, \<lparr>min_b = 7, max_b = 9\<rparr>]"
  let ?X' = "[\<lparr>min_b = 7, max_b = 9\<rparr>, \<lparr>min_b = 2, max_b = 4\<rparr>, \<lparr>min_b = 1, max_b = 3\<rparr>]"
  have p: "mset ?X' = mset ?X" by simp
  have m: "merge ?X = Inr [\<lparr>min_b = 1, max_b = 4\<rparr>, \<lparr>min_b = 7, max_b = 9\<rparr>]" by code_simp
  have m': "merge ?X' = Inr [\<lparr>min_b = 7, max_b = 9\<rparr>, \<lparr>min_b = 1, max_b = 4\<rparr>]" by code_simp
  show ?thesis using merge_order_independent [OF p m] p m m' by simp
qed

text \<open>
  C5. Idempotence: \<open>merge\<close> applied to a sequence that \<open>merge\<close> returned gives that
  sequence back, element for element: nothing is removed, updated or added.
\<close>

theorem merge_idempotent:
  assumes "merge X = Inr Y"
  shows "merge Y = Inr Y"
proof -
  have inv: "merge_inv X (- 1) Y" using merge_Inr [OF assms] by simp
  then have "Y \<noteq> []" "fixed_above (- 1) Y" by (simp_all add: merge_inv_def)
  then show ?thesis by (simp add: merge_def outer_fixed)
qed

theorem merge_idempotent_witness:
  "merge [\<lparr>min_b = 1, max_b = 3\<rparr>, \<lparr>min_b = 2, max_b = 4\<rparr>, \<lparr>min_b = 7, max_b = 9\<rparr>]
     = Inr [\<lparr>min_b = 1, max_b = 4\<rparr>, \<lparr>min_b = 7, max_b = 9\<rparr>]
   \<and> merge [\<lparr>min_b = 1, max_b = 4\<rparr>, \<lparr>min_b = 7, max_b = 9\<rparr>]
     = Inr [\<lparr>min_b = 1, max_b = 4\<rparr>, \<lparr>min_b = 7, max_b = 9\<rparr>]"
proof -
  have m: "merge [\<lparr>min_b = 1, max_b = 3\<rparr>, \<lparr>min_b = 2, max_b = 4\<rparr>, \<lparr>min_b = 7, max_b = 9\<rparr>]
     = Inr [\<lparr>min_b = 1, max_b = 4\<rparr>, \<lparr>min_b = 7, max_b = 9\<rparr>]" by code_simp
  show ?thesis using merge_idempotent [OF m] m by simp
qed

text \<open>
  C6. \<open>merge\<close> never changes the caller's vector: after a call that returns, it
  holds the same intervals, with the same bounds and in the same order, as before; all
  erasures and updates were made on the copy, which is what the call returns.
\<close>

theorem merge_keeps_caller_vector:
  assumes "call_merge v = Inr s"
  shows "caller_vector s = v \<and> merge v = Inr (list_param s)"
  using assms unfolding call_merge_merge by (cases "merge v") auto

theorem merge_keeps_caller_vector_witness:
  "call_merge [\<lparr>min_b = 1, max_b = 5\<rparr>, \<lparr>min_b = 5, max_b = 10\<rparr>]
     = Inr \<lparr>caller_vector = [\<lparr>min_b = 1, max_b = 5\<rparr>, \<lparr>min_b = 5, max_b = 10\<rparr>],
            list_param = [\<lparr>min_b = 1, max_b = 10\<rparr>]\<rparr>
   \<and> caller_vector \<lparr>caller_vector = [\<lparr>min_b = 1, max_b = 5\<rparr>, \<lparr>min_b = 5, max_b = 10\<rparr>],
                     list_param = [\<lparr>min_b = 1, max_b = 10\<rparr>]\<rparr>
     = [\<lparr>min_b = 1, max_b = 5\<rparr>, \<lparr>min_b = 5, max_b = 10\<rparr>]"
proof -
  have c: "call_merge [\<lparr>min_b = 1, max_b = 5\<rparr>, \<lparr>min_b = 5, max_b = 10\<rparr>]
     = Inr \<lparr>caller_vector = [\<lparr>min_b = 1, max_b = 5\<rparr>, \<lparr>min_b = 5, max_b = 10\<rparr>],
            list_param = [\<lparr>min_b = 1, max_b = 10\<rparr>]\<rparr>"
    by code_simp
  show ?thesis using merge_keeps_caller_vector [OF c] c by simp
qed

text \<open>
  C7. Empty and singleton inputs. A one-element sequence is returned unchanged. On the
  empty sequence \<open>merge\<close> does not return the empty sequence: the loop starts from an
  iterator that does not point into the vector.
\<close>

theorem merge_empty_and_singleton:
  "merge [] = Inl InvalidIterator \<and> (\<forall>I. merge [I] = Inr [I])"
  by (simp add: merge_def outer.simps inner.simps)

text \<open>
  C8. No bound is invented: every interval that \<open>merge\<close> returns has the \<open>min\<close> of
  some input interval and the \<open>max\<close> of some input interval.
\<close>

theorem merge_bounds_from_input:
  assumes "merge X = Inr Y" and "y \<in> set Y"
  shows "(\<exists>x\<in>set X. min_b y = min_b x) \<and> (\<exists>x\<in>set X. max_b y = max_b x)"
proof -
  have "bounds_from X Y" using merge_Inr [OF assms(1)] by (simp add: merge_inv_def)
  then have "min_b y \<in> min_b ` set X" "max_b y \<in> max_b ` set X"
    using assms(2) unfolding bounds_from_def by blast+
  then show ?thesis by blast
qed

theorem merge_bounds_from_input_witness:
  "merge [\<lparr>min_b = 1, max_b = 5\<rparr>, \<lparr>min_b = 5, max_b = 10\<rparr>] = Inr [\<lparr>min_b = 1, max_b = 10\<rparr>]
   \<and> (\<exists>x\<in>set [\<lparr>min_b = 1, max_b = 5\<rparr>, \<lparr>min_b = 5, max_b = 10\<rparr>]. 1 = min_b x)
   \<and> (\<exists>x\<in>set [\<lparr>min_b = 1, max_b = 5\<rparr>, \<lparr>min_b = 5, max_b = 10\<rparr>]. 10 = max_b x)"
proof -
  let ?X = "[\<lparr>min_b = 1, max_b = 5\<rparr>, \<lparr>min_b = 5, max_b = 10\<rparr>]"
  have m: "merge ?X = Inr [\<lparr>min_b = 1, max_b = 10\<rparr>]" by code_simp
  have y: "\<lparr>min_b = 1, max_b = 10\<rparr> \<in> set [\<lparr>min_b = 1, max_b = 10\<rparr>]" by simp
  show ?thesis using merge_bounds_from_input [OF m y] m by simp
qed

text \<open>
  C9. Termination. Both loops are total functions (their termination is proved where they
  are defined), a scan removes at most one element, and \<open>merge\<close> returns a sequence,
  non-empty and no longer than its input, exactly when its input is not empty.
\<close>

theorem merge_returns_iff:
  "(\<exists>Y. merge X = Inr Y \<and> Y \<noteq> [] \<and> length Y \<le> length X) \<longleftrightarrow> X \<noteq> []"
proof
  assume "\<exists>Y. merge X = Inr Y \<and> Y \<noteq> [] \<and> length Y \<le> length X"
  then show "X \<noteq> []" by (auto simp: merge_def split: if_splits)
next
  assume "X \<noteq> []"
  then obtain Y where "merge X = Inr Y" "merge_inv X (- 1) Y" using merge_returns by blast
  then show "\<exists>Y. merge X = Inr Y \<and> Y \<noteq> [] \<and> length Y \<le> length X"
    by (auto simp: merge_inv_def)
qed

section \<open>Properties of testMerge\<close>

text \<open>
  C3. The comparison of \<open>testMerge\<close>. The test is reported as successful exactly when
  the merged result and the expected sequence have the same size and the same
  \<open>(min, max)\<close> pair at every position: the comparison follows the order of the two
  sequences.
\<close>

theorem testMerge_compares_in_order:
  assumes "testMerge input expected verbose = Inr run"
  shows "TestSuccessfull \<in> set (console run) \<longleftrightarrow>
     (\<exists>result. merge input = Inr result \<and> length result = length expected
        \<and> (\<forall>i<length result. min_b (result ! i) = min_b (expected ! i)
                               \<and> max_b (result ! i) = max_b (expected ! i)))"
proof -
  obtain result where r: "merge input = Inr result"
    "TestSuccessfull \<in> set (console run) \<longleftrightarrow>
        length result = length expected \<and> std_equal result expected = Some True"
    using testMerge_console [OF assms] by blast
  show ?thesis unfolding r(2) using r(1) std_equal_same_length [of result expected] by auto
qed

theorem testMerge_compares_in_order_witness:
  "testMerge [\<lparr>min_b = 1, max_b = 4\<rparr>, \<lparr>min_b = 5, max_b = 10\<rparr>]
             [\<lparr>min_b = 1, max_b = 4\<rparr>, \<lparr>min_b = 5, max_b = 10\<rparr>] False
     = Inr \<lparr>console = [StartTest, TestSuccessfull], returned = None\<rparr>
   \<and> (\<exists>result. merge [\<lparr>min_b = 1, max_b = 4\<rparr>, \<lparr>min_b = 5, max_b = 10\<rparr>] = Inr result
        \<and> length result = length [\<lparr>min_b = 1, max_b = 4\<rparr>, \<lparr>min_b = 5, max_b = 10\<rparr>]
        \<and> (\<forall>i<length result.
              min_b (result ! i) = min_b ([\<lparr>min_b = 1, max_b = 4\<rparr>, \<lparr>min_b = 5, max_b = 10\<rparr>] ! i)
            \<and> max_b (result ! i) = max_b ([\<lparr>min_b = 1, max_b = 4\<rparr>, \<lparr>min_b = 5, max_b = 10\<rparr>] ! i)))"
proof -
  let ?X = "[\<lparr>min_b = 1, max_b = 4\<rparr>, \<lparr>min_b = 5, max_b = 10\<rparr>]"
  have m: "merge ?X = Inr ?X" by code_simp
  have t: "testMerge ?X ?X False = Inr \<lparr>console = [StartTest, TestSuccessfull], returned = None\<rparr>"
    by (simp add: testMerge_def m)
  show ?thesis using testMerge_compares_in_order [OF t] t by simp
qed

text \<open>
  The same two intervals in the other order are reported as a failure.
\<close>

theorem testMerge_order_counterexample:
  "merge [\<lparr>min_b = 1, max_b = 4\<rparr>, \<lparr>min_b = 5, max_b = 10\<rparr>]
     = Inr [\<lparr>min_b = 1, max_b = 4\<rparr>, \<lparr>min_b = 5, max_b = 10\<rparr>]
   \<and> mset [\<lparr>min_b = 1, max_b = 4\<rparr>, \<lparr>min_b = 5, max_b = 10\<rparr>]
     = mset [\<lparr>min_b = 5, max_b = 10\<rparr>, \<lparr>min_b = 1, max_b = 4\<rparr>]
   \<and> testMerge [\<lparr>min_b = 1, max_b = 4\<rparr>, \<lparr>min_b = 5, max_b = 10\<rparr>]
                [\<lparr>min_b = 5, max_b = 10\<rparr>, \<lparr>min_b = 1, max_b = 4\<rparr>] False
     = Inr \<lparr>console = [StartTest, TestFailed, NotEqualToExpected, Stars], returned = None\<rparr>"
proof -
  let ?X = "[\<lparr>min_b = 1, max_b = 4\<rparr>, \<lparr>min_b = 5, max_b = 10\<rparr>]"
  have m: "merge ?X = Inr ?X" by code_simp
  show ?thesis by (simp add: testMerge_def m)
qed

text \<open>
  C10. \<open>testMerge\<close> hands no boolean back to its caller, however the run ends; the
  outcome is only on the console.
\<close>

theorem testMerge_returns_no_value:
  assumes "testMerge input expected verbose = Inr run"
  shows "returned run = None"
  using assms by (auto simp: testMerge_def Let_def split: sum.splits)

theorem testMerge_returns_no_value_witness:
  "testMerge [\<lparr>min_b = 3, max_b = 30\<rparr>] [\<lparr>min_b = 3, max_b = 30\<rparr>] True
     = Inr \<lparr>console = [StartTest, InputHeader, IntervalLine 3 30, ResultHeader, IntervalLine 3 30,
                        ExpectedHeader, IntervalLine 3 30, TestSuccessfull], returned = None\<rparr>
   \<and> returned \<lparr>console = [StartTest, InputHeader, IntervalLine 3 30, ResultHeader,
                           IntervalLine 3 30, ExpectedHeader, IntervalLine 3 30, TestSuccessfull],
                returned = None\<rparr> = None"
proof -
  have m: "merge [\<lparr>min_b = 3, max_b = 30\<rparr>] = Inr [\<lparr>min_b = 3, max_b = 30\<rparr>]" by code_simp
  have t: "testMerge [\<lparr>min_b = 3, max_b = 30\<rparr>] [\<lparr>min_b = 3, max_b = 30\<rparr>] True
     = Inr \<lparr>console = [StartTest, InputHeader, IntervalLine 3 30, ResultHeader, IntervalLine 3 30,
                        ExpectedHeader, IntervalLine 3 30, TestSuccessfull], returned = None\<rparr>"
    by (simp add: testMerge_def m printIntervals_def)
  show ?thesis using testMerge_returns_no_value [OF t] t by simp
qed

end
